theory Spec2Isabelle
  imports Complex_Main "HOL-Library.Stream" "HOL-Library.Word"
begin

section \<open>Python values, exceptions and binary64 floats\<close>

text \<open>
  The notebooks define two Python functions and one Cython function and drive them from
  top-level cells:
  \<^item> \<^verbatim>\<open>estimate_number_points_in_quarter_circle\<close> (Part 1, multiprocessing),
  \<^item> \<^verbatim>\<open>fib\<close> in Python and \<^verbatim>\<open>fib\<close> in Cython (Part 4),
  \<^item> the cells that split 10000 samples over 16 blocks and aggregate the counts.
  Exceptions are values of \<open>error\<close>; a computation that may raise returns
  \<open>error + 'a\<close> with \<open>Inl\<close> for the exception.
\<close>

datatype error = TypeError | ValueError | OverflowError | ZeroDivisionError | MemoryError

text \<open>
  A Python \<^verbatim>\<open>float\<close> (and a C \<^verbatim>\<open>double\<close>) is an IEEE 754 binary64 number: a finite
  value, an infinity or a NaN. A finite float is carried by the real number it denotes
  (the sign of a zero is not kept: nothing in the notebooks observes it).
\<close>

datatype pyfloat = Finite real | PosInf | NegInf | NaN

text \<open>
  The finite binary64 values: magnitudes \<open>m * 2 ^ e\<close> with a significand \<open>m < 2 ^ 53\<close>
  and an exponent \<open>-1074 \<le> e \<le> 971\<close>, written with natural exponents as
  \<open>m * 2 ^ k\<close> (\<open>k \<le> 971\<close>) or \<open>m / 2 ^ k\<close> (\<open>k \<le> 1074\<close>).
\<close>

definition double_values :: "real set" where
  "double_values =
     (\<lambda>(s, m, k). s * real m * 2 ^ k) ` ({- 1, 1} \<times> {m. m < 2 ^ 53} \<times> {k. k \<le> 971})
   \<union> (\<lambda>(s, m, k). s * real m / 2 ^ k) ` ({- 1, 1} \<times> {m. m < 2 ^ 53} \<times> {k. k \<le> 1074})"

definition representable :: "real \<Rightarrow> bool" where
  "representable x = (x \<in> double_values)"

text \<open>
  Rounding to nearest, ties to even (the default rounding of IEEE 754, the one CPython
  and the C code Cython emits run under). The exact result is compared with its two
  neighbours on the grid of binary64 values, extended by \<open>2 ^ 1024\<close> on both sides:
  a result that rounds to \<open>2 ^ 1024\<close> overflows to an infinity. At a tie the neighbour
  with the even significand wins; the significand of \<open>lo\<close> in units of the gap is
  \<open>lo / (hi - lo)\<close>.
\<close>

definition overflow_bound :: real where
  "overflow_bound = 2 ^ 1024"

definition rounding_grid :: "real set" where
  "rounding_grid = double_values \<union> {- overflow_bound, overflow_bound}"

definition nearest_even :: "real \<Rightarrow> real" where
  "nearest_even x =
     (let lo = Max {r \<in> rounding_grid. r \<le> x};
          hi = Min {r \<in> rounding_grid. x \<le> r}
      in if lo = hi then lo
         else if x - lo < hi - x then lo
         else if hi - x < x - lo then hi
         else if even \<lfloor>lo / (hi - lo)\<rfloor> then lo else hi)"

definition round_double :: "real \<Rightarrow> pyfloat" where
  "round_double x =
     (if overflow_bound \<le> x then PosInf
      else if x \<le> - overflow_bound then NegInf
      else let v = nearest_even x
           in if v = overflow_bound then PosInf
              else if v = - overflow_bound then NegInf
              else Finite v)"

text \<open>Float addition \<^verbatim>\<open>a + b\<close>, multiplication \<^verbatim>\<open>a * b\<close> and comparison \<^verbatim>\<open>a <= b\<close>.\<close>

fun fadd :: "pyfloat \<Rightarrow> pyfloat \<Rightarrow> pyfloat" where
  "fadd (Finite x) (Finite y) = round_double (x + y)"
| "fadd NaN _ = NaN"
| "fadd _ NaN = NaN"
| "fadd PosInf NegInf = NaN"
| "fadd NegInf PosInf = NaN"
| "fadd PosInf _ = PosInf"
| "fadd _ PosInf = PosInf"
| "fadd NegInf _ = NegInf"
| "fadd _ NegInf = NegInf"

fun fmul :: "pyfloat \<Rightarrow> pyfloat \<Rightarrow> pyfloat" where
  "fmul (Finite x) (Finite y) = round_double (x * y)"
| "fmul NaN _ = NaN"
| "fmul _ NaN = NaN"
| "fmul (Finite x) i =
     (if x = 0 then NaN else if (0 < x) = (i = PosInf) then PosInf else NegInf)"
| "fmul i (Finite y) =
     (if y = 0 then NaN else if (0 < y) = (i = PosInf) then PosInf else NegInf)"
| "fmul PosInf PosInf = PosInf"
| "fmul NegInf NegInf = PosInf"
| "fmul PosInf NegInf = NegInf"
| "fmul NegInf PosInf = NegInf"

fun fle :: "pyfloat \<Rightarrow> pyfloat \<Rightarrow> bool" where
  "fle NaN _ = False"
| "fle _ NaN = False"
| "fle (Finite x) (Finite y) = (x \<le> y)"
| "fle NegInf _ = True"
| "fle _ PosInf = True"
| "fle _ _ = False"

text \<open>
  Python's true division \<^verbatim>\<open>a / b\<close> of two \<^verbatim>\<open>int\<close>s: ZeroDivisionError for a zero
  divisor, otherwise the float nearest to the exact quotient, OverflowError when that is
  too large for a float.
\<close>

definition true_div :: "int \<Rightarrow> int \<Rightarrow> error + pyfloat" where
  "true_div a b =
     (if b = 0 then Inl ZeroDivisionError
      else case round_double (real_of_int a / real_of_int b) of
             PosInf \<Rightarrow> Inl OverflowError
           | NegInf \<Rightarrow> Inl OverflowError
           | q \<Rightarrow> Inr q)"

text \<open>
  The argument values the functions are exercised with: an \<^verbatim>\<open>int\<close>, a \<^verbatim>\<open>float\<close>
  or \<^verbatim>\<open>None\<close>.
\<close>

datatype pyval = VInt int | VFloat pyfloat | VNone

text \<open>
  \<^verbatim>\<open>int(x)\<close>: an int is returned as it is, a finite float is truncated towards zero,
  an infinity raises OverflowError, a NaN raises ValueError, \<^verbatim>\<open>None\<close> raises TypeError.
\<close>

fun py_int :: "pyval \<Rightarrow> error + int" where
  "py_int (VInt n) = Inr n"
| "py_int (VFloat (Finite x)) = Inr (if 0 \<le> x then \<lfloor>x\<rfloor> else \<lceil>x\<rceil>)"
| "py_int (VFloat PosInf) = Inl OverflowError"
| "py_int (VFloat NegInf) = Inl OverflowError"
| "py_int (VFloat NaN) = Inl ValueError"
| "py_int VNone = Inl TypeError"

text \<open>
  \<^verbatim>\<open>range(n)\<close> as the list of values a \<^verbatim>\<open>for\<close> loop runs through: \<open>0, ..., n - 1\<close>,
  empty for \<open>n \<le> 0\<close>. \<^verbatim>\<open>range\<close> takes integers only: a float or \<^verbatim>\<open>None\<close> raises
  TypeError.
\<close>

definition py_range :: "int \<Rightarrow> int list" where
  "py_range n = [0..n - 1]"

fun range_of :: "pyval \<Rightarrow> error + int list" where
  "range_of (VInt n) = Inr (py_range n)"
| "range_of (VFloat x) = Inl TypeError"
| "range_of VNone = Inl TypeError"

section \<open>Part 1: the Monte Carlo estimator\<close>

text \<open>
  \<^verbatim>\<open>random.uniform(0, 1)\<close> reads and advances the module-level generator of
  \<^verbatim>\<open>random\<close>. The state of that generator is modelled by the sequence of numbers it
  is going to return: a call returns the head and leaves the tail.
\<close>

type_synonym rng = "pyfloat stream"

definition random_uniform :: "rng \<Rightarrow> pyfloat \<times> rng" where
  "random_uniform g = (shd g, stl g)"

text \<open>
  \<^verbatim>\<open>
  def estimate_number_points_in_quarter_circle(number_estimates):
      number_trials_in_quarter_circle = 0
      for step in range(int(number_estimates)):
          x = random.uniform(0, 1)
          y = random.uniform(0, 1)
          is_in_unit_circle = x * x + y * y <= 1.0
          number_trials_in_quarter_circle += is_in_unit_circle
      return number_trials_in_quarter_circle
  \<close>
  \<open>trial\<close> is the loop body on the pair of the running count and the generator state;
  adding the \<^verbatim>\<open>bool\<close> adds 1 or 0.
\<close>

definition trial :: "int \<Rightarrow> int \<times> rng \<Rightarrow> int \<times> rng" where
  "trial step = (\<lambda>(number_trials_in_quarter_circle, g).
     let (x, g1) = random_uniform g;
         (y, g2) = random_uniform g1;
         is_in_unit_circle = fle (fadd (fmul x x) (fmul y y)) (Finite 1)
     in (number_trials_in_quarter_circle + (if is_in_unit_circle then 1 else 0), g2))"

text \<open>
  The test \<^verbatim>\<open>x * x + y * y <= 1.0\<close> of the body, named for the statements about the
  count.
\<close>

definition is_in_unit_circle :: "pyfloat \<Rightarrow> pyfloat \<Rightarrow> bool" where
  "is_in_unit_circle x y = fle (fadd (fmul x x) (fmul y y)) (Finite 1)"

definition estimate_number_points_in_quarter_circle ::
    "pyval \<Rightarrow> rng \<Rightarrow> (error + int) \<times> rng" where
  "estimate_number_points_in_quarter_circle number_estimates g =
     (case py_int number_estimates of
        Inl e \<Rightarrow> (Inl e, g)
      | Inr n \<Rightarrow>
          (let (number_trials_in_quarter_circle, g') = fold trial (py_range n) (0, g)
           in (Inr number_trials_in_quarter_circle, g')))"

section \<open>Part 1: splitting the samples and aggregating the counts\<close>

text \<open>
  \<^verbatim>\<open>
  number_samples_in_total = 10000
  number_parallel_blocks = 16
  number_samples_per_worker_task = number_samples_in_total / number_parallel_blocks
  number_trials_per_process = [number_samples_per_worker_task] * number_parallel_blocks
  ...
  pi_estimate = sum(number_in_unit_circles) * 4 / number_samples_in_total
  \<close>
  The split is stated for any total and any number of blocks (the notebook invites the
  reader to change both).
\<close>

definition number_samples_in_total :: int where
  "number_samples_in_total = 10000"

definition number_parallel_blocks :: int where
  "number_parallel_blocks = 16"

definition number_samples_per_worker_task :: "int \<Rightarrow> int \<Rightarrow> error + pyfloat" where
  "number_samples_per_worker_task samples blocks = true_div samples blocks"

text \<open>
  List repetition \<^verbatim>\<open>[x] * n\<close>. The count is converted to a machine index first: outside
  \<open>- sys.maxsize - 1 .. sys.maxsize\<close> (64-bit CPython) that raises OverflowError. A count
  of more items than the interpreter can allocate raises MemoryError; \<open>room\<close> is the
  length of the longest list it can allocate at that moment. A non-positive count gives
  the empty list.
\<close>

definition sys_maxsize :: int where
  "sys_maxsize = 2 ^ 63 - 1"

definition list_repeat :: "nat \<Rightarrow> 'a \<Rightarrow> int \<Rightarrow> error + 'a list" where
  "list_repeat room x n =
     (if n < - sys_maxsize - 1 \<or> sys_maxsize < n then Inl OverflowError
      else if int room < n then Inl MemoryError
      else Inr (replicate (nat n) x))"

definition number_trials_per_process_in :: "nat \<Rightarrow> int \<Rightarrow> int \<Rightarrow> error + pyfloat list" where
  "number_trials_per_process_in room samples blocks =
     (case number_samples_per_worker_task samples blocks of
        Inl e \<Rightarrow> Inl e
      | Inr q \<Rightarrow> list_repeat room q blocks)"

text \<open>
  CPython never builds a list of more than \<open>sys.maxsize / 8\<close> items (one pointer of eight
  bytes each). The cell of the notebook is the cell run with all of that room.
\<close>

definition max_list_length :: nat where
  "max_list_length = nat (sys_maxsize div 8)"

definition number_trials_per_process :: "int \<Rightarrow> int \<Rightarrow> error + pyfloat list" where
  "number_trials_per_process samples blocks =
     number_trials_per_process_in max_list_length samples blocks"

definition pi_estimate :: "int list \<Rightarrow> error + pyfloat" where
  "pi_estimate number_in_unit_circles =
     true_div (sum_list number_in_unit_circles * 4) number_samples_in_total"

section \<open>Part 4: Fibonacci in Python and in Cython\<close>

text \<open>
  \<^verbatim>\<open>
  def fib(n):
      a = 0.0
      b = 1.0
      for i in range(n):
          a, b = a + b, a
      return a
  \<close>
\<close>

definition fib_step :: "'i \<Rightarrow> pyfloat \<times> pyfloat \<Rightarrow> pyfloat \<times> pyfloat" where
  "fib_step i = (\<lambda>(a, b). (fadd a b, a))"

definition fib :: "pyval \<Rightarrow> error + pyfloat" where
  "fib n =
     (case range_of n of
        Inl e \<Rightarrow> Inl e
      | Inr steps \<Rightarrow> Inr (fst (fold fib_step steps (Finite 0, Finite 1))))"

text \<open>
  \<^verbatim>\<open>
  def fib(int n):
      cdef int i
      cdef double a = 0.0
      cdef double b = 1.0
      for i in range(n):
          a, b = a + b, a
      return a
  \<close>
  The argument is converted to a C \<^verbatim>\<open>int\<close> (32 bits, two's complement) on entry; a
  Python int outside its range raises OverflowError. With \<^verbatim>\<open>i\<close> and \<^verbatim>\<open>n\<close> typed,
  the loop is the C loop \<^verbatim>\<open>for (i = 0; i < n; i++)\<close> with a signed comparison.
\<close>

definition as_c_int :: "int \<Rightarrow> error + 32 word" where
  "as_c_int n =
     (if - (2 ^ 31) \<le> n \<and> n < 2 ^ 31 then Inr (word_of_int n) else Inl OverflowError)"

function cy_loop :: "32 word \<Rightarrow> 32 word \<Rightarrow> pyfloat \<times> pyfloat \<Rightarrow> pyfloat \<times> pyfloat" where
  "cy_loop i n ab = (if i <s n then cy_loop (i + 1) n (fib_step i ab) else ab)"
  by pat_completeness auto
termination
proof (relation "measure (\<lambda>(i, n, ab). unat (n - i))")
  show "wf (measure (\<lambda>(i :: 32 word, n :: 32 word, ab :: pyfloat \<times> pyfloat). unat (n - i)))"
    by simp
next
  fix i n :: "32 word" and ab :: "pyfloat \<times> pyfloat"
  assume "i <s n"
  then have "n - i \<noteq> 0"
    by (auto simp: word_sless_alt)
  then have "unat (n - i - 1) < unat (n - i)"
    by (simp add: unat_minus_one unat_gt_0)
  then have "unat (n - (i + 1)) < unat (n - i)"
    by (simp add: diff_diff_eq add.commute)
  then show "((i + 1, n, fib_step i ab), (i, n, ab))
      \<in> measure (\<lambda>(i, n, ab). unat (n - i))"
    by simp
qed

definition fib_cython :: "int \<Rightarrow> error + pyfloat" where
  "fib_cython n =
     (case as_c_int n of
        Inl e \<Rightarrow> Inl e
      | Inr w \<Rightarrow> Inr (fst (cy_loop 0 w (Finite 0, Finite 1))))"

text \<open>
  The mathematical Fibonacci sequence the description of \<^verbatim>\<open>fib\<close> refers to:
  \<open>F 0 = 0\<close>, \<open>F 1 = 1\<close>, \<open>F k = F (k - 1) + F (k - 2)\<close>.
\<close>

fun fibonacci :: "nat \<Rightarrow> nat" where
  "fibonacci 0 = 0"
| "fibonacci (Suc 0) = 1"
| "fibonacci (Suc (Suc k)) = fibonacci (Suc k) + fibonacci k"

text \<open>
  Two functions used only to evaluate facts about \<open>fibonacci\<close>: the sequence computed
  by iteration, and a check that a stretch of consecutive Fibonacci numbers has no
  multiple of \<open>M\<close>, run on residues modulo \<open>M\<close>.
\<close>

fun fib_iter :: "nat \<Rightarrow> nat \<Rightarrow> nat \<Rightarrow> nat" where
  "fib_iter 0 a b = a"
| "fib_iter (Suc k) a b = fib_iter k b (a + b)"

fun nonzero_residues :: "nat \<Rightarrow> nat \<Rightarrow> nat \<Rightarrow> nat \<Rightarrow> bool" where
  "nonzero_residues M 0 a b = True"
| "nonzero_residues M (Suc k) a b =
     (a \<noteq> 0 \<and> nonzero_residues M k b (if a + b < M then a + b else a + b - M))"

section \<open>Facts about binary64 rounding\<close>

lemma finite_double_values: "finite double_values"
  by (simp add: double_values_def)

lemma finite_rounding_grid: "finite rounding_grid"
  by (simp add: rounding_grid_def finite_double_values)

lemma double_values_iff:
  "x \<in> double_values \<longleftrightarrow>
     (\<exists>s m k. (s = - 1 \<or> s = 1) \<and> m < 2 ^ 53 \<and>
        (k \<le> 971 \<and> x = s * real m * 2 ^ k \<or> k \<le> 1074 \<and> x = s * real m / 2 ^ k))"
  unfolding double_values_def image_def Un_iff mem_Collect_eq Bex_def mem_Times_iff
    split_paired_Ex case_prod_conv fst_conv snd_conv insert_iff empty_iff
  by blast

lemma significand_bound: "m < 2 ^ 53 \<Longrightarrow> real m < 2 ^ 53"
  by (metis of_nat_less_iff of_nat_numeral of_nat_power)

lemma representable_up: "m < 2 ^ 53 \<Longrightarrow> k \<le> 971 \<Longrightarrow> representable (real m * 2 ^ k)"
  unfolding representable_def double_values_iff
  by (rule exI [of _ 1], rule exI [of _ m], rule exI [of _ k]) simp

lemma representable_down: "m < 2 ^ 53 \<Longrightarrow> k \<le> 1074 \<Longrightarrow> representable (real m / 2 ^ k)"
  unfolding representable_def double_values_iff
  by (rule exI [of _ 1], rule exI [of _ m], rule exI [of _ k]) simp

lemma representable_nat: "m < 2 ^ 53 \<Longrightarrow> representable (real m)"
  using representable_up [of m 0] by simp

lemma representable_uminus: "representable x \<Longrightarrow> representable (- x)"
  unfolding representable_def double_values_iff
  apply (elim exE conjE)
  subgoal for s m k
    by (rule exI [of _ "- s"], rule exI [of _ m], rule exI [of _ k]) auto
  done

lemma double_values_bound:
  assumes "x \<in> double_values"
  shows "\<bar>x\<bar> < overflow_bound"
proof -
  from assms obtain s m k where s: "s = - 1 \<or> s = (1::real)" and m: "m < 2 ^ 53"
    and x: "k \<le> 971 \<and> x = s * real m * 2 ^ k \<or> k \<le> 1074 \<and> x = s * real m / 2 ^ k"
    unfolding double_values_iff by blast
  have rm: "real m < 2 ^ 53"
    by (rule significand_bound [OF m])
  from x show ?thesis
  proof
    assume up: "k \<le> 971 \<and> x = s * real m * 2 ^ k"
    have "(2::real) ^ k \<le> 2 ^ 971"
      using up by (intro power_increasing) auto
    then have "real m * 2 ^ k < 2 ^ 53 * 2 ^ 971"
      using rm by (intro mult_less_le_imp_less) auto
    also have "(2::real) ^ 53 * 2 ^ 971 = 2 ^ 1024"
      by (simp flip: power_add)
    finally have "real m * 2 ^ k < 2 ^ 1024" .
    moreover have "\<bar>x\<bar> = real m * 2 ^ k"
      using up s by (auto simp: abs_mult)
    ultimately show ?thesis
      by (simp add: overflow_bound_def)
  next
    assume down: "k \<le> 1074 \<and> x = s * real m / 2 ^ k"
    have "real m / 2 ^ k \<le> real m"
      by (simp add: divide_le_eq mult_le_cancel_left1)
    also have "\<dots> < 2 ^ 53" by (rule rm)
    also have "(2::real) ^ 53 \<le> 2 ^ 1024"
      by (intro power_increasing) auto
    finally have "real m / 2 ^ k < 2 ^ 1024" .
    moreover have "\<bar>x\<bar> = real m / 2 ^ k"
      using down s by (auto simp: abs_mult)
    ultimately show ?thesis
      by (simp add: overflow_bound_def)
  qed
qed

lemma overflow_bound_pos: "0 < overflow_bound"
  by (simp add: overflow_bound_def)

text \<open>The two neighbours of a real inside the overflow bounds.\<close>

lemma lower_neighbour:
  assumes "- overflow_bound < x"
  shows "Max {r \<in> rounding_grid. r \<le> x} \<in> rounding_grid"
    and "Max {r \<in> rounding_grid. r \<le> x} \<le> x"
    and "\<And>a. a \<in> rounding_grid \<Longrightarrow> a \<le> x \<Longrightarrow> a \<le> Max {r \<in> rounding_grid. r \<le> x}"
proof -
  let ?L = "{r \<in> rounding_grid. r \<le> x}"
  have fin: "finite ?L"
    by (simp add: finite_rounding_grid)
  have ne: "?L \<noteq> {}"
    using assms by (auto simp: rounding_grid_def intro!: exI [of _ "- overflow_bound"])
  from Max_in [OF fin ne] show "Max ?L \<in> rounding_grid" and "Max ?L \<le> x"
    by auto
  show "a \<le> Max ?L" if "a \<in> rounding_grid" "a \<le> x" for a
    using that fin by (intro Max_ge) auto
qed

lemma upper_neighbour:
  assumes "x < overflow_bound"
  shows "Min {r \<in> rounding_grid. x \<le> r} \<in> rounding_grid"
    and "x \<le> Min {r \<in> rounding_grid. x \<le> r}"
    and "\<And>b. b \<in> rounding_grid \<Longrightarrow> x \<le> b \<Longrightarrow> Min {r \<in> rounding_grid. x \<le> r} \<le> b"
proof -
  let ?U = "{r \<in> rounding_grid. x \<le> r}"
  have fin: "finite ?U"
    by (simp add: finite_rounding_grid)
  have ne: "?U \<noteq> {}"
    using assms by (auto simp: rounding_grid_def intro!: exI [of _ "overflow_bound"])
  from Min_in [OF fin ne] show "Min ?U \<in> rounding_grid" and "x \<le> Min ?U"
    by auto
  show "Min ?U \<le> b" if "b \<in> rounding_grid" "x \<le> b" for b
    using that fin by (intro Min_le) auto
qed

lemma nearest_even_cases:
  "nearest_even x = Max {r \<in> rounding_grid. r \<le> x} \<or>
   nearest_even x = Min {r \<in> rounding_grid. x \<le> r}"
  by (simp add: nearest_even_def Let_def)

lemma nearest_even_between:
  assumes "a \<in> rounding_grid" "b \<in> rounding_grid" "a \<le> x" "x \<le> b"
    and "- overflow_bound < x" "x < overflow_bound"
  shows "nearest_even x \<in> rounding_grid \<and> a \<le> nearest_even x \<and> nearest_even x \<le> b"
proof -
  let ?lo = "Max {r \<in> rounding_grid. r \<le> x}" and ?hi = "Min {r \<in> rounding_grid. x \<le> r}"
  have lo: "?lo \<in> rounding_grid" "?lo \<le> x" "a \<le> ?lo"
    using lower_neighbour [OF assms(5)] assms(1,3) by blast+
  have hi: "?hi \<in> rounding_grid" "x \<le> ?hi" "?hi \<le> b"
    using upper_neighbour [OF assms(6)] assms(2,4) by blast+
  from nearest_even_cases [of x] show ?thesis
  proof
    assume "nearest_even x = ?lo"
    then show ?thesis using lo hi assms by auto
  next
    assume "nearest_even x = ?hi"
    then show ?thesis using lo hi assms by auto
  qed
qed

lemma nearest_even_exact:
  assumes "x \<in> rounding_grid" "- overflow_bound < x" "x < overflow_bound"
  shows "nearest_even x = x"
  using nearest_even_between [OF assms(1) assms(1) order_refl order_refl assms(2,3)] by simp

lemma representable_in_grid: "representable x \<Longrightarrow> x \<in> rounding_grid"
  by (simp add: representable_def rounding_grid_def)

lemma representable_bound: "representable x \<Longrightarrow> - overflow_bound < x \<and> x < overflow_bound"
  using double_values_bound [of x] by (auto simp: representable_def)

lemma round_double_exact: "representable x \<Longrightarrow> round_double x = Finite x"
  using representable_bound [of x] nearest_even_exact [of x] representable_in_grid [of x]
  by (simp add: round_double_def)

lemma round_double_between:
  assumes "representable a" "representable b" "a \<le> x" "x \<le> b"
  shows "\<exists>v. round_double x = Finite v \<and> representable v \<and> a \<le> v \<and> v \<le> b"
proof -
  have x: "- overflow_bound < x" "x < overflow_bound"
    using representable_bound [OF assms(1)] representable_bound [OF assms(2)] assms(3,4) by auto
  have ne: "nearest_even x \<in> rounding_grid" "a \<le> nearest_even x" "nearest_even x \<le> b"
    using nearest_even_between [OF representable_in_grid [OF assms(1)]
      representable_in_grid [OF assms(2)] assms(3,4) x] by auto
  have fin: "nearest_even x \<noteq> overflow_bound" "nearest_even x \<noteq> - overflow_bound"
    using ne representable_bound [OF assms(1)] representable_bound [OF assms(2)] by auto
  then have "representable (nearest_even x)"
    using ne(1) by (auto simp: rounding_grid_def representable_def)
  then show ?thesis
    using x fin ne by (simp add: round_double_def)
qed

lemma round_double_Finite:
  assumes "round_double x = Finite v"
  shows "representable v"
proof -
  from assms have x: "- overflow_bound < x" "x < overflow_bound"
    and v: "v = nearest_even x" "v \<noteq> overflow_bound" "v \<noteq> - overflow_bound"
    by (auto simp: round_double_def Let_def split: if_splits)
  have "- overflow_bound \<in> rounding_grid" "overflow_bound \<in> rounding_grid"
    by (simp_all add: rounding_grid_def)
  from nearest_even_between [OF this _ _ x] x have "nearest_even x \<in> rounding_grid"
    by simp
  with v show ?thesis
    by (auto simp: rounding_grid_def representable_def)
qed

lemma round_double_Finite_iff: "round_double x = Finite x \<longleftrightarrow> representable x"
  using round_double_Finite round_double_exact by blast

section \<open>Facts about the loops\<close>

lemma py_range_empty: "n \<le> 0 \<Longrightarrow> py_range n = []"
  by (simp add: py_range_def)

lemma length_py_range: "length (py_range n) = nat n"
  by (simp add: py_range_def)

lemma trial_result:
  "\<exists>d. (d = 0 \<or> d = 1) \<and> trial step (c, g) = (c + d, sdrop 2 g)"
  by (simp add: trial_def random_uniform_def Let_def numeral_2_eq_2)

lemma fold_trial:
  "\<exists>c'. fold trial steps (c, g) = (c', sdrop (2 * length steps) g) \<and>
        c \<le> c' \<and> c' \<le> c + int (length steps)"
proof (induction steps arbitrary: c g)
  case Nil
  then show ?case by simp
next
  case (Cons step steps)
  obtain d where d: "d = 0 \<or> d = 1" "trial step (c, g) = (c + d, sdrop 2 g)"
    using trial_result [of step c g] by blast
  obtain c' where c': "fold trial steps (c + d, sdrop 2 g)
      = (c', sdrop (2 * length steps) (sdrop 2 g))" "c + d \<le> c'" "c' \<le> c + d + int (length steps)"
    using Cons.IH [of "c + d" "sdrop 2 g"] by blast
  have "fold trial (step # steps) (c, g) = (c', sdrop (2 * length (step # steps)) g)"
    using d(2) c'(1) by (simp add: add.commute)
  moreover have "c \<le> c'" "c' \<le> c + int (length (step # steps))"
    using d(1) c'(2,3) by auto
  ultimately show ?case by blast
qed

lemma estimate_of_int:
  "\<exists>c. estimate_number_points_in_quarter_circle (VInt n) g = (Inr c, sdrop (2 * nat n) g) \<and>
       0 \<le> c \<and> c \<le> int (nat n)"
  using fold_trial [of "py_range n" 0 g]
  by (auto simp: estimate_number_points_in_quarter_circle_def length_py_range)

lemma estimate_float_as_int:
  "0 \<le> x \<Longrightarrow> estimate_number_points_in_quarter_circle (VFloat (Finite x)) g
     = estimate_number_points_in_quarter_circle (VInt \<lfloor>x\<rfloor>) g"
  by (simp add: estimate_number_points_in_quarter_circle_def)

lemma trial_prefix:
  assumes "shd g = shd g'" "shd (stl g) = shd (stl g')"
  shows "fst (trial step (c, g)) = fst (trial step (c, g'))"
  using assms by (simp add: trial_def random_uniform_def Let_def)

lemma snd_trial: "snd (trial step (c, g)) = stl (stl g)"
  by (simp add: trial_def random_uniform_def Let_def)

lemma fold_trial_prefix:
  "stake (2 * length steps) g = stake (2 * length steps) g' \<Longrightarrow>
   fst (fold trial steps (c, g)) = fst (fold trial steps (c, g'))"
proof (induction steps arbitrary: c g g')
  case Nil
  then show ?case by simp
next
  case (Cons step steps)
  from Cons.prems have heads: "shd g = shd g'" "shd (stl g) = shd (stl g')"
    and rest: "stake (2 * length steps) (stl (stl g)) = stake (2 * length steps) (stl (stl g'))"
    by simp_all
  obtain d where d: "trial step (c, g) = (d, stl (stl g))"
    by (metis prod.collapse snd_trial)
  have d': "trial step (c, g') = (d, stl (stl g'))"
    using trial_prefix [OF heads, of step c] d by (metis fst_conv prod.collapse snd_trial)
  show ?case
    using Cons.IH [OF rest, of d] by (simp add: d d')
qed

lemma representable_0: "representable 0"
  using representable_nat [of 0] by simp

lemma representable_1: "representable 1"
  using representable_nat [of 1] by simp

lemma representable_9_16: "representable (9 / 16)"
  using representable_down [of 9 4] by simp

lemma representable_9_8: "representable (9 / 8)"
  using representable_down [of 9 3] by simp

lemma py_range_1: "py_range 1 = [0]"
  by (simp add: py_range_def upto_rec1)

lemma in_circle_origin:
  "fle (fadd (fmul (Finite 0) (Finite 0)) (fmul (Finite 0) (Finite 0))) (Finite 1)"
  by (simp add: round_double_exact representable_0)

lemma outside_circle:
  "\<not> fle (fadd (fmul (Finite (3 / 4)) (Finite (3 / 4))) (fmul (Finite (3 / 4)) (Finite (3 / 4))))
     (Finite 1)"
  by (simp add: round_double_exact representable_9_16 representable_9_8)

lemma true_div_exact:
  "b \<noteq> 0 \<Longrightarrow> representable (real_of_int a / real_of_int b) \<Longrightarrow>
   true_div a b = Inr (Finite (real_of_int a / real_of_int b))"
  by (simp add: true_div_def round_double_exact)

lemma notebook_split:
  "number_trials_per_process number_samples_in_total number_parallel_blocks
     = Inr (replicate 16 (Finite 625))"
proof -
  have "representable (real_of_int 10000 / real_of_int 16)"
    using representable_nat [of 625] by simp
  from true_div_exact [OF _ this] show ?thesis
    by (simp add: number_trials_per_process_def number_trials_per_process_in_def
        number_samples_per_worker_task_def list_repeat_def sys_maxsize_def max_list_length_def
        number_samples_in_total_def number_parallel_blocks_def)
qed

lemma sint_succ:
  fixes i n :: "32 word"
  assumes "i <s n"
  shows "sint (i + 1) = sint i + 1"
proof -
  have "sint i < sint n" using assms by (simp add: word_sless_alt)
  moreover have "sint n < 2 ^ 31" using sint_lt [of n] by simp
  moreover have "- (2 ^ 31) \<le> sint i" using sint_ge [of i] by simp
  ultimately have "- (2 ^ 31) \<le> sint i + 1" "sint i + 1 < 2 ^ 31" by auto
  then show ?thesis
    by (simp add: sint_word_ariths signed_take_bit_int_eq_self)
qed

lemma fold_fib_step: "fold fib_step steps ab = (fib_step () ^^ length steps) ab"
  by (induction steps arbitrary: ab) (simp_all add: fib_step_def funpow_swap1)

lemma cy_loop_funpow: "cy_loop i n ab = (fib_step () ^^ nat (sint n - sint i)) ab"
proof (induction i n ab rule: cy_loop.induct)
  case (1 i n ab)
  note unfold = cy_loop.simps [of i n ab]
  show ?case
  proof (cases "i <s n")
    case True
    then have lt: "sint i < sint n" by (simp add: word_sless_alt)
    have "cy_loop i n ab = cy_loop (i + 1) n (fib_step i ab)"
      using True unfold by (simp only: if_True)
    also have "\<dots> = (fib_step () ^^ nat (sint n - sint (i + 1))) (fib_step i ab)"
      using "1.IH" [OF True] .
    also have "fib_step i ab = fib_step () ab"
      by (simp add: fib_step_def)
    also have "nat (sint n - sint (i + 1)) = nat (sint n - sint i) - 1"
      using sint_succ [OF True] by simp
    also have "(fib_step () ^^ (nat (sint n - sint i) - 1)) (fib_step () ab)
        = (fib_step () ^^ Suc (nat (sint n - sint i) - 1)) ab"
      by (simp only: funpow_Suc_right o_apply)
    also have "Suc (nat (sint n - sint i) - 1) = nat (sint n - sint i)"
      using lt by simp
    finally show ?thesis .
  next
    case False
    then have "nat (sint n - sint i) = 0" by (simp add: word_sless_alt)
    moreover have "cy_loop i n ab = ab"
      using False unfold by (simp only: if_False)
    ultimately show ?thesis by simp
  qed
qed


lemma sint_as_c_int:
  "- (2 ^ 31) \<le> n \<Longrightarrow> n < 2 ^ 31 \<Longrightarrow> sint (word_of_int n :: 32 word) = n"
  by (simp add: sint_sbintrunc' signed_take_bit_int_eq_self)

section \<open>Which Fibonacci numbers are doubles\<close>

text \<open>
  A natural number is a double exactly when it is \<open>m * 2 ^ k\<close> with \<open>m < 2 ^ 53\<close> and
  \<open>k \<le> 971\<close>. The Fibonacci numbers up to \<open>F 78\<close> are below \<open>2 ^ 53\<close>; from \<open>F 79\<close> on
  they have too few factors of two for their size, and from \<open>F 1477\<close> on they exceed
  every double.
\<close>

lemma fib_iter_numeral:
  "fib_iter (numeral k) a b = fib_iter (pred_numeral k) b (a + b)"
  by (simp only: numeral_eq_Suc fib_iter.simps)

lemma nonzero_residues_numeral:
  "nonzero_residues M (numeral k) a b =
     (a \<noteq> 0 \<and> nonzero_residues M (pred_numeral k) b (if a + b < M then a + b else a + b - M))"
  by (simp only: numeral_eq_Suc nonzero_residues.simps)

lemmas eval_simps = pred_numeral_simps BitM.simps arith_simps
      more_arith_simps rel_simps One_nat_def [symmetric] numeral_plus_numeral add_0 one_add_one
      one_plus_numeral numeral_plus_one if_True if_False simp_thms diff_nat_numeral nat_numeral
      diff_numeral_simps nat_0 nat_neg_numeral power_numeral Num.pow.simps Num.sqr.simps
      fib_iter_numeral fib_iter.simps nonzero_residues_numeral nonzero_residues.simps

lemma fib_iter_fibonacci: "fib_iter k (fibonacci i) (fibonacci (Suc i)) = fibonacci (i + k)"
proof (induction k arbitrary: i)
  case 0
  then show ?case by simp
next
  case (Suc k)
  have "fibonacci i + fibonacci (Suc i) = fibonacci (Suc (Suc i))"
    by simp
  then have "fib_iter (Suc k) (fibonacci i) (fibonacci (Suc i))
      = fib_iter k (fibonacci (Suc i)) (fibonacci (Suc (Suc i)))"
    by (simp only: fib_iter.simps)
  also have "\<dots> = fibonacci (Suc i + k)"
    by (rule Suc.IH)
  finally show ?case by simp
qed

lemma fibonacci_eval: "fibonacci k = fib_iter k 0 1"
  using fib_iter_fibonacci [of k 0] by simp

lemma fibonacci_mono: "i \<le> j \<Longrightarrow> fibonacci i \<le> fibonacci j"
proof (induction j)
  case 0
  then show ?case by simp
next
  case (Suc j)
  have "fibonacci j \<le> fibonacci (Suc j)"
    by (cases j) simp_all
  with Suc show ?case
    by (cases "i = Suc j") auto
qed

lemma residues_sound:
  assumes "0 < M" "a = fibonacci i mod M" "b = fibonacci (Suc i) mod M"
    and "nonzero_residues M k a b" "j < k"
  shows "fibonacci (i + j) mod M \<noteq> 0"
  using assms(2-)
proof (induction k arbitrary: i j a b)
  case 0
  then show ?case by simp
next
  case (Suc k)
  let ?c = "if a + b < M then a + b else a + b - M"
  have a: "a < M" and b: "b < M"
    using Suc.prems(1,2) assms(1) by simp_all
  have "?c = (a + b) mod M"
    using a b by (simp add: mod_if)
  also have "\<dots> = fibonacci (Suc (Suc i)) mod M"
    using Suc.prems(1,2) by (simp add: mod_add_eq add.commute)
  finally have c: "?c = fibonacci (Suc (Suc i)) mod M" .
  show ?case
  proof (cases j)
    case 0
    then show ?thesis using Suc.prems by simp
  next
    case (Suc j')
    have "fibonacci (Suc i + j') mod M \<noteq> 0"
      using Suc.IH [OF Suc.prems(2) c, of j'] Suc.prems(3,4) Suc by simp
    then show ?thesis using Suc by simp
  qed
qed


lemma representable_nat_cases:
  assumes "representable (real x)"
  shows "\<exists>m k. m < 2 ^ 53 \<and> k \<le> 971 \<and> x = m * 2 ^ k"
proof -
  from assms obtain s m k where s: "s = - 1 \<or> s = (1::real)" and m: "m < 2 ^ 53"
    and x: "k \<le> 971 \<and> real x = s * real m * 2 ^ k \<or> k \<le> 1074 \<and> real x = s * real m / 2 ^ k"
    unfolding representable_def double_values_iff by blast
  have zero: "\<exists>m k. m < 2 ^ 53 \<and> k \<le> 971 \<and> x = m * 2 ^ k" if "x = 0"
    using that by (intro exI [of _ 0]) simp
  from x show ?thesis
  proof
    assume up: "k \<le> 971 \<and> real x = s * real m * 2 ^ k"
    from s show ?thesis
    proof
      assume "s = 1"
      then have "real x = real (m * 2 ^ k)"
        using up by simp
      then have "x = m * 2 ^ k"
        by (simp only: of_nat_eq_iff)
      then show ?thesis
        using m up by blast
    next
      assume "s = - 1"
      then have "real x = - (real m * 2 ^ k)"
        using up by simp
      moreover have "0 \<le> real m * 2 ^ k" "0 \<le> real x"
        by simp_all
      ultimately have "x = 0"
        by linarith
      then show ?thesis
        by (rule zero)
    qed
  next
    assume down: "k \<le> 1074 \<and> real x = s * real m / 2 ^ k"
    from s show ?thesis
    proof
      assume "s = 1"
      then have "real x * 2 ^ k = real m"
        using down by simp
      then have "real (x * 2 ^ k) = real m"
        by simp
      then have "x * 2 ^ k = m"
        by (simp only: of_nat_eq_iff)
      moreover have "x * 1 \<le> x * 2 ^ k"
        by (intro mult_le_mono2) simp
      ultimately have "x < 2 ^ 53"
        using m by simp
      then show ?thesis
        by (intro exI [of _ x] exI [of _ 0]) simp
    next
      assume "s = - 1"
      then have "real x = - (real m / 2 ^ k)"
        using down by simp
      moreover have "0 \<le> real m / 2 ^ k" "0 \<le> real x"
        by simp_all
      ultimately have "x = 0"
        by linarith
      then show ?thesis
        by (rule zero)
    qed
  qed
qed

lemma representable_nat_dvd:
  assumes "representable (real x)" "2 ^ (52 + j) \<le> x"
  shows "2 ^ j dvd x"
proof -
  from representable_nat_cases [OF assms(1)] obtain m k
    where m: "m < 2 ^ 53" and x: "x = m * 2 ^ k"
    by blast
  show ?thesis
  proof (cases "j \<le> k")
    case True
    then have "(2::nat) ^ j dvd 2 ^ k"
      by (rule le_imp_power_dvd)
    then show ?thesis
      using x by simp
  next
    case False
    then have "Suc k \<le> j" by simp
    have "x < 2 ^ 53 * 2 ^ k"
      using m x by simp
    also have "\<dots> = 2 ^ (52 + Suc k)"
      by (simp add: power_add)
    also have "\<dots> \<le> 2 ^ (52 + j)"
      using \<open>Suc k \<le> j\<close> by (intro power_increasing) simp_all
    finally show ?thesis
      using assms(2) by simp
  qed
qed

lemma representable_nat_less: "representable (real x) \<Longrightarrow> x < 2 ^ 1024"
  using representable_bound [of "real x"] by (simp add: overflow_bound_def)

lemma range_not_representable:
  assumes "M = 2 ^ j"
    and "nonzero_residues M k (fibonacci i mod M) (fibonacci (Suc i) mod M)"
    and "2 ^ (52 + j) \<le> fibonacci i" "i \<le> n" "n < i + k"
  shows "\<not> representable (real (fibonacci n))"
proof
  assume rep: "representable (real (fibonacci n))"
  have "2 ^ (52 + j) \<le> fibonacci n"
    using assms(3) fibonacci_mono [OF assms(4)] by simp
  from representable_nat_dvd [OF rep this] have "fibonacci n mod M = 0"
    using assms(1) by simp
  moreover have "fibonacci (i + (n - i)) mod M \<noteq> 0"
    using assms(1,4,5) by (intro residues_sound [OF _ refl refl assms(2)]) simp_all
  ultimately show False
    using assms(4) by simp
qed

lemma fibonacci_78: "fibonacci 78 = 8944394323791464"
  by (simp only: fibonacci_eval eval_simps)

lemma fibonacci_79: "fibonacci 79 = 14472334024676221"
  by (simp only: fibonacci_eval eval_simps)

lemma fibonacci_80: "fibonacci 80 = 23416728348467685"
  by (simp only: fibonacci_eval eval_simps)

lemma fibonacci_81: "fibonacci 81 = 37889062373143906"
  by (simp only: fibonacci_eval eval_simps)

lemma fibonacci_82: "fibonacci 82 = 61305790721611591"
  by (simp only: fibonacci_eval eval_simps)

lemma fibonacci_84: "fibonacci 84 = 160500643816367088"
  by (simp only: fibonacci_eval eval_simps)

lemma fibonacci_85: "fibonacci 85 = 259695496911122585"
  by (simp only: fibonacci_eval eval_simps)

lemma fibonacci_93: "fibonacci 93 = 12200160415121876738"
  by (simp only: fibonacci_eval eval_simps)

lemma fibonacci_94: "fibonacci 94 = 19740274219868223167"
  by (simp only: fibonacci_eval eval_simps)

lemma fibonacci_1477: "2 ^ 1024 \<le> fibonacci 1477"
  by (simp only: fibonacci_eval eval_simps)


lemma not_representable_79_80:
  assumes "79 \<le> n" "n < 79 + 2"
  shows "\<not> representable (real (fibonacci n))"
proof (rule range_not_representable [where M = 2 and j = 1 and k = 2 and i = 79])
  show "(2::nat) = 2 ^ 1" by simp
  have "fibonacci 79 mod 2 = 1" "fibonacci (Suc 79) mod 2 = 1"
    by (simp_all add: fibonacci_79 fibonacci_80)
  then show "nonzero_residues 2 2 (fibonacci 79 mod 2) (fibonacci (Suc 79) mod 2)"
    by (simp only: eval_simps)
  show "2 ^ (52 + 1) \<le> fibonacci 79"
    by (simp add: fibonacci_79)
qed (use assms in simp_all)

lemma not_representable_81_83:
  assumes "81 \<le> n" "n < 81 + 3"
  shows "\<not> representable (real (fibonacci n))"
proof (rule range_not_representable [where M = 8 and j = 3 and k = 3 and i = 81])
  show "(8::nat) = 2 ^ 3" by simp
  have "fibonacci 81 mod 8 = 2" "fibonacci (Suc 81) mod 8 = 7"
    by (simp_all add: fibonacci_81 fibonacci_82)
  then show "nonzero_residues 8 3 (fibonacci 81 mod 8) (fibonacci (Suc 81) mod 8)"
    by (simp only: eval_simps)
  show "2 ^ (52 + 3) \<le> fibonacci 81"
    by (simp add: fibonacci_81)
qed (use assms in simp_all)

lemma not_representable_84_92:
  assumes "84 \<le> n" "n < 84 + 9"
  shows "\<not> representable (real (fibonacci n))"
proof (rule range_not_representable [where M = 32 and j = 5 and k = 9 and i = 84])
  show "(32::nat) = 2 ^ 5" by simp
  have "fibonacci 84 mod 32 = 16" "fibonacci (Suc 84) mod 32 = 25"
    by (simp_all add: fibonacci_84 fibonacci_85)
  then show "nonzero_residues 32 9 (fibonacci 84 mod 32) (fibonacci (Suc 84) mod 32)"
    by (simp only: eval_simps)
  show "2 ^ (52 + 5) \<le> fibonacci 84"
    by (simp add: fibonacci_84)
qed (use assms in simp_all)

lemma not_representable_93_1476:
  assumes "93 \<le> n" "n < 93 + 1384"
  shows "\<not> representable (real (fibonacci n))"
proof (rule range_not_representable [where M = 2048 and j = 11 and k = 1384 and i = 93])
  show "(2048::nat) = 2 ^ 11" by simp
  have "fibonacci 93 mod 2048 = 1794" "fibonacci (Suc 93) mod 2048 = 1727"
    by (simp_all add: fibonacci_93 fibonacci_94)
  then show "nonzero_residues 2048 1384 (fibonacci 93 mod 2048) (fibonacci (Suc 93) mod 2048)"
    by (simp only: eval_simps)
  show "2 ^ (52 + 11) \<le> fibonacci 93"
    by (simp add: fibonacci_93)
qed (use assms in simp_all)

lemma representable_fibonacci_iff: "representable (real (fibonacci n)) \<longleftrightarrow> n \<le> 78"
proof
  assume rep: "representable (real (fibonacci n))"
  show "n \<le> 78"
  proof (rule ccontr)
    assume "\<not> n \<le> 78"
    then consider "79 \<le> n \<and> n < 79 + 2" | "81 \<le> n \<and> n < 81 + 3" | "84 \<le> n \<and> n < 84 + 9"
      | "93 \<le> n \<and> n < 93 + 1384" | "1477 \<le> n"
      by linarith
    then show False
    proof cases
      case 1
      then show False using not_representable_79_80 rep by blast
    next
      case 2
      then show False using not_representable_81_83 rep by blast
    next
      case 3
      then show False using not_representable_84_92 rep by blast
    next
      case 4
      then show False using not_representable_93_1476 rep by blast
    next
      case 5
      from fibonacci_mono [OF this] fibonacci_1477 have "2 ^ 1024 \<le> fibonacci n"
        by simp
      with representable_nat_less [OF rep] show False
        by simp
    qed
  qed
next
  assume "n \<le> 78"
  from fibonacci_mono [OF this] have "fibonacci n < 2 ^ 53"
    by (simp add: fibonacci_78)
  then show "representable (real (fibonacci n))"
    by (rule representable_nat)
qed


lemma fib_loop:
  "n \<le> 78 \<Longrightarrow> (fib_step () ^^ n) (Finite 0, Finite 1)
     = (Finite (real (fibonacci n)), Finite (real (if n = 0 then 1 else fibonacci (n - 1))))"
proof (induction n)
  case 0
  then show ?case by simp
next
  case (Suc n)
  let ?p = "if n = 0 then 1 else fibonacci (n - 1)"
  have sum: "fibonacci n + ?p = fibonacci (Suc n)"
    by (cases n) simp_all
  have "representable (real (fibonacci (Suc n)))"
    using Suc.prems by (simp only: representable_fibonacci_iff)
  then have "round_double (real (fibonacci n) + real ?p) = Finite (real (fibonacci (Suc n)))"
    using round_double_exact [of "real (fibonacci (Suc n))"] sum
    by (metis of_nat_add)
  then have "fib_step () (Finite (real (fibonacci n)), Finite (real ?p))
      = (Finite (real (fibonacci (Suc n))), Finite (real (fibonacci n)))"
    by (simp add: fib_step_def)
  moreover have "(fib_step () ^^ n) (Finite 0, Finite 1)
      = (Finite (real (fibonacci n)), Finite (real ?p))"
    using Suc by simp
  ultimately show ?case
    by simp
qed

lemma fibonacci_10: "fibonacci 10 = 55"
  by (simp only: fibonacci_eval eval_simps)

section \<open>Facts about true division\<close>

text \<open>
  Every double is a dyadic rational, so a quotient such as \<open>1 / 3\<close> or \<open>1 / 2500\<close> is
  not a double, and true division returns a neighbour of it.
\<close>

lemma representable_dyadic:
  assumes "representable x"
  shows "\<exists>(i::int) k. x * 2 ^ k = real_of_int i"
proof -
  from assms obtain s m k where s: "s = - 1 \<or> s = (1::real)"
    and x: "k \<le> 971 \<and> x = s * real m * 2 ^ k \<or> k \<le> 1074 \<and> x = s * real m / 2 ^ k"
    unfolding representable_def double_values_iff by blast
  from s obtain t :: int where t: "s = real_of_int t"
    by (metis of_int_1 of_int_minus)
  from x show ?thesis
  proof
    assume "k \<le> 971 \<and> x = s * real m * 2 ^ k"
    then have "x * 2 ^ 0 = real_of_int (t * int m * 2 ^ k)"
      using t by simp
    then show ?thesis by blast
  next
    assume "k \<le> 1074 \<and> x = s * real m / 2 ^ k"
    then have "x * 2 ^ k = real_of_int (t * int m)"
      using t by simp
    then show ?thesis by blast
  qed
qed

lemma power_two_mod_3: "(2::int) ^ k mod 3 = 1 \<or> (2::int) ^ k mod 3 = 2"
proof (induction k)
  case 0
  then show ?case by simp
next
  case (Suc k)
  have "(2::int) ^ Suc k mod 3 = (2 * (2 ^ k mod 3)) mod 3"
    by (simp add: mod_mult_right_eq)
  with Suc show ?case by auto
qed

lemma power_two_mod_5: "(2::int) ^ k mod 5 \<noteq> 0"
proof -
  have "(2::int) ^ k mod 5 \<in> {1, 2, 3, 4}"
  proof (induction k)
    case 0
    then show ?case by simp
  next
    case (Suc k)
    have "(2::int) ^ Suc k mod 5 = (2 * (2 ^ k mod 5)) mod 5"
      by (simp add: mod_mult_right_eq)
    with Suc show ?case by auto
  qed
  then show ?thesis by auto
qed

lemma third_not_representable: "\<not> representable (1 / 3)"
proof
  assume "representable (1 / 3)"
  from representable_dyadic [OF this] obtain i :: int and k where "(1 / 3) * 2 ^ k = real_of_int i"
    by blast
  then have "real_of_int (2 ^ k) = real_of_int (3 * i)"
    by simp
  then have "(2::int) ^ k = 3 * i"
    by (simp only: of_int_eq_iff)
  then have "(2::int) ^ k mod 3 = 0"
    by simp
  with power_two_mod_3 [of k] show False
    by simp
qed

lemma one_2500th_not_representable: "\<not> representable (1 / 2500)"
proof
  assume "representable (1 / 2500)"
  from representable_dyadic [OF this] obtain i :: int and k where "(1 / 2500) * 2 ^ k = real_of_int i"
    by blast
  then have "real_of_int (2 ^ k) = real_of_int (5 * (500 * i))"
    by simp
  then have "(2::int) ^ k = 5 * (500 * i)"
    by (simp only: of_int_eq_iff)
  then have "(2::int) ^ k mod 5 = 0"
    by (simp only: mod_mult_self1_is_0)
  with power_two_mod_5 [of k] show False
    by simp
qed

lemma sum_list_bounds:
  "\<forall>c \<in> set cs. 0 \<le> c \<and> c \<le> B \<Longrightarrow> 0 \<le> sum_list cs \<and> sum_list cs \<le> B * int (length cs)"
  for cs :: "int list"
  by (induction cs) (auto simp: algebra_simps)

lemma true_div_between:
  assumes "b \<noteq> 0" "representable lo" "representable hi"
    and "lo \<le> real_of_int a / real_of_int b" "real_of_int a / real_of_int b \<le> hi"
  shows "\<exists>v. true_div a b = Inr (Finite v) \<and> round_double (real_of_int a / real_of_int b) = Finite v \<and>
    representable v \<and> lo \<le> v \<and> v \<le> hi"
proof -
  from round_double_between [OF assms(2,3,4,5)] obtain v
    where "round_double (real_of_int a / real_of_int b) = Finite v" "representable v" "lo \<le> v" "v \<le> hi"
    by blast
  then show ?thesis
    using assms(1) by (simp add: true_div_def)
qed

section \<open>Facts about list repetition and the count\<close>

lemma list_repeat_too_long:
  "sys_maxsize < n \<Longrightarrow> list_repeat room x n = Inl OverflowError"
  "0 \<le> n \<Longrightarrow> n \<le> sys_maxsize \<Longrightarrow> int room < n \<Longrightarrow> list_repeat room x n = Inl MemoryError"
  by (simp_all add: list_repeat_def sys_maxsize_def)

lemma work_split_too_many_blocks:
  assumes "round_double (real_of_int samples / real_of_int blocks) = Finite q"
  shows "sys_maxsize < blocks \<Longrightarrow>
      number_trials_per_process_in room samples blocks = Inl OverflowError"
    and "0 < blocks \<Longrightarrow> blocks \<le> sys_maxsize \<Longrightarrow> int room < blocks \<Longrightarrow>
      number_trials_per_process_in room samples blocks = Inl MemoryError"
proof -
  have q: "blocks \<noteq> 0 \<Longrightarrow> number_samples_per_worker_task samples blocks = Inr (Finite q)"
    using assms by (simp add: number_samples_per_worker_task_def true_div_def)
  show "number_trials_per_process_in room samples blocks = Inl OverflowError"
    if "sys_maxsize < blocks"
  proof -
    from that have "blocks \<noteq> 0"
      by (auto simp: sys_maxsize_def)
    with q list_repeat_too_long(1) [OF that] show ?thesis
      by (simp add: number_trials_per_process_in_def)
  qed
  show "number_trials_per_process_in room samples blocks = Inl MemoryError"
    if "0 < blocks" "blocks \<le> sys_maxsize" "int room < blocks"
    using that q list_repeat_too_long(2) [of blocks room]
    by (simp add: number_trials_per_process_in_def)
qed

lemma trial_unfolded:
  "trial step (c, g)
     = (c + (if is_in_unit_circle (shd g) (shd (stl g)) then 1 else 0), stl (stl g))"
  by (simp add: trial_def random_uniform_def is_in_unit_circle_def Let_def)

lemma fold_trial_sum:
  "fold trial steps (c, g)
     = (c + (\<Sum>i<length steps.
              if is_in_unit_circle (g !! (2 * i)) (g !! (2 * i + 1)) then 1 else 0),
        sdrop (2 * length steps) g)"
proof -
  define h :: "rng \<Rightarrow> nat \<Rightarrow> int"
    where "h = (\<lambda>g i. if is_in_unit_circle (g !! (2 * i)) (g !! (2 * i + 1)) then 1 else 0)"
  have shift: "h (stl (stl g)) i = h g (Suc i)" for g i
    by (simp add: h_def)
  have first: "trial step (c, g) = (c + h g 0, stl (stl g))" for step c g
    by (simp add: h_def trial_unfolded)
  have "fold trial steps (c, g) = (c + (\<Sum>i<length steps. h g i), sdrop (2 * length steps) g)"
  proof (induction steps arbitrary: c g)
    case Nil
    then show ?case by simp
  next
    case (Cons step steps)
    have "fold trial (step # steps) (c, g) = fold trial steps (c + h g 0, stl (stl g))"
      by (simp add: first)
    also have "\<dots> = (c + h g 0 + (\<Sum>i<length steps. h (stl (stl g)) i),
        sdrop (2 * length steps) (stl (stl g)))"
      by (rule Cons.IH)
    also have "(\<Sum>i<length steps. h (stl (stl g)) i) = (\<Sum>i<length steps. h g (Suc i))"
      by (simp only: shift)
    also have "c + h g 0 + (\<Sum>i<length steps. h g (Suc i))
        = c + (\<Sum>i<length (step # steps). h g i)"
    proof -
      have len: "length (step # steps) = Suc (length steps)"
        by simp
      show ?thesis
        by (simp only: len sum.lessThan_Suc_shift add.assoc)
    qed
    also have "sdrop (2 * length steps) (stl (stl g)) = sdrop (2 * length (step # steps)) g"
      by simp
    finally show ?case .
  qed
  then show ?thesis
    by (simp only: h_def)
qed

lemma hits_bounds:
  "0 \<le> (\<Sum>i<k. if P i then 1 else (0::int)) \<and> (\<Sum>i<k. if P i then 1 else (0::int)) \<le> int k"
  by (induction k) auto

lemma estimate_int_count:
  "estimate_number_points_in_quarter_circle (VInt n) g
     = (Inr (\<Sum>i<nat n. if is_in_unit_circle (g !! (2 * i)) (g !! (2 * i + 1)) then 1 else 0),
        sdrop (2 * nat n) g)"
  by (simp add: estimate_number_points_in_quarter_circle_def fold_trial_sum length_py_range)

lemma origin_is_in_unit_circle: "is_in_unit_circle (Finite 0) (Finite 0)"
  using in_circle_origin by (simp add: is_in_unit_circle_def)

section \<open>The claims\<close>

text \<open>
  C1. As stated (a pure function, equal results on equal inputs, no state outside its
  arguments) the claim does not hold: each trial draws two numbers from the module-level
  generator. What holds: the result is a function of the argument and of the state of
  that generator at the call; it depends on the next \<open>2 * int(number_estimates)\<close> draws
  only, so two runs that see the same draws return the same count, and the call leaves
  the generator advanced by exactly that many draws.
\<close>

theorem estimate_depends_on_generator:
  assumes "py_int number_estimates = Inr n"
    and "stake (2 * nat n) g = stake (2 * nat n) g'"
  shows "fst (estimate_number_points_in_quarter_circle number_estimates g)
       = fst (estimate_number_points_in_quarter_circle number_estimates g') \<and>
     snd (estimate_number_points_in_quarter_circle number_estimates g) = sdrop (2 * nat n) g"
proof
  have len: "length (py_range n) = nat n"
    by (rule length_py_range)
  show "fst (estimate_number_points_in_quarter_circle number_estimates g)
       = fst (estimate_number_points_in_quarter_circle number_estimates g')"
    using fold_trial_prefix [of "py_range n" g g' 0] assms
    by (simp add: estimate_number_points_in_quarter_circle_def len split_beta)
  show "snd (estimate_number_points_in_quarter_circle number_estimates g) = sdrop (2 * nat n) g"
    using fold_trial [of "py_range n" 0 g] assms(1)
    by (auto simp: estimate_number_points_in_quarter_circle_def len)
qed

theorem estimate_depends_on_generator_witness:
  "py_int (VInt 1) = Inr 1 \<and>
   stake (2 * nat 1) (Finite 0 ## Finite 0 ## sconst (Finite (3 / 4)))
     = stake (2 * nat 1) (sconst (Finite 0)) \<and>
   fst (estimate_number_points_in_quarter_circle (VInt 1)
         (Finite 0 ## Finite 0 ## sconst (Finite (3 / 4))))
     = fst (estimate_number_points_in_quarter_circle (VInt 1) (sconst (Finite 0))) \<and>
   snd (estimate_number_points_in_quarter_circle (VInt 1)
         (Finite 0 ## Finite 0 ## sconst (Finite (3 / 4))))
     = sdrop (2 * nat 1) (Finite 0 ## Finite 0 ## sconst (Finite (3 / 4)))"
proof -
  have a: "py_int (VInt 1) = Inr 1" by simp
  have b: "stake (2 * nat 1) (Finite 0 ## Finite 0 ## sconst (Finite (3 / 4)))
     = stake (2 * nat 1) (sconst (Finite 0))"
    by (simp add: numeral_2_eq_2)
  show ?thesis
    using a b estimate_depends_on_generator [OF a b] by blast
qed

text \<open>
  Two successive calls with the same argument: the first sees the draws \<open>0, 0\<close> and counts
  the point, the second sees \<open>0.75, 0.75\<close> and does not; the first call has changed the
  generator.
\<close>

theorem estimate_not_pure_counterexample:
  "estimate_number_points_in_quarter_circle (VInt 1)
     (Finite 0 ## Finite 0 ## sconst (Finite (3 / 4))) = (Inr 1, sconst (Finite (3 / 4))) \<and>
   estimate_number_points_in_quarter_circle (VInt 1)
     (sconst (Finite (3 / 4))) = (Inr 0, sconst (Finite (3 / 4)))"
  using in_circle_origin outside_circle
  by (simp add: estimate_number_points_in_quarter_circle_def py_range_1 trial_def
      random_uniform_def)

text \<open>
  C2. For \<open>n \<ge> 0\<close>, whenever the \<open>n\<close>-th Fibonacci number is a double, \<^verbatim>\<open>fib(n)\<close>
  returns it (this is the case exactly for \<open>n \<le> 78\<close>, where every addition of the loop
  is exact); for \<open>n \<le> 0\<close> the range is empty, the body does not run and the result
  is \<open>0.0\<close>.
\<close>

theorem fib_returns_fibonacci:
  "(0 \<le> n \<and> representable (real (fibonacci (nat n))) \<longrightarrow>
      fib (VInt n) = Inr (Finite (real (fibonacci (nat n))))) \<and>
   (n \<le> 0 \<longrightarrow> py_range n = [] \<and> fib (VInt n) = Inr (Finite 0))"
proof (intro conjI impI)
  assume "0 \<le> n \<and> representable (real (fibonacci (nat n)))"
  then have "nat n \<le> 78"
    by (simp only: representable_fibonacci_iff)
  from fib_loop [OF this] show "fib (VInt n) = Inr (Finite (real (fibonacci (nat n))))"
    by (simp add: fib_def fold_fib_step length_py_range)
next
  assume "n \<le> 0"
  then show "py_range n = []"
    by (rule py_range_empty)
  then show "fib (VInt n) = Inr (Finite 0)"
    by (simp add: fib_def)
qed

theorem fib_returns_fibonacci_witness:
  "(0::int) \<le> 10 \<and> representable (real (fibonacci (nat 10))) \<and>
   fib (VInt 10) = Inr (Finite 55) \<and>
   (- 3 :: int) \<le> 0 \<and> py_range (- 3) = [] \<and> fib (VInt (- 3)) = Inr (Finite 0)"
proof -
  have rep: "representable (real (fibonacci (nat 10)))"
    by (simp add: representable_fibonacci_iff)
  have val: "real (fibonacci (nat 10)) = 55"
    by (simp add: fibonacci_10)
  show ?thesis
    using fib_returns_fibonacci [of 10] fib_returns_fibonacci [of "- 3"] rep val by simp
qed

text \<open>
  C3. None of the three functions handles a failure itself. The only operations in them
  that can raise are the conversions on entry (\<^verbatim>\<open>int(number_estimates)\<close>,
  \<^verbatim>\<open>range(n)\<close>, the conversion of \<^verbatim>\<open>n\<close> to a C int); the function raises exactly
  the error of that operation and returns nothing, and the estimator has not touched the
  generator at that point.
\<close>

theorem errors_propagate:
  "(py_int x = Inl e \<longleftrightarrow> fst (estimate_number_points_in_quarter_circle x g) = Inl e) \<and>
   (py_int x = Inl e \<longrightarrow> estimate_number_points_in_quarter_circle x g = (Inl e, g)) \<and>
   (range_of v = Inl e \<longleftrightarrow> fib v = Inl e) \<and>
   (as_c_int n = Inl e \<longleftrightarrow> fib_cython n = Inl e)"
  by (auto simp: estimate_number_points_in_quarter_circle_def fib_def fib_cython_def
      split: sum.splits prod.splits)

theorem errors_propagate_witness:
  "py_int VNone = Inl TypeError \<and>
   estimate_number_points_in_quarter_circle VNone (sconst (Finite 0)) = (Inl TypeError, sconst (Finite 0)) \<and>
   range_of (VFloat (Finite 2)) = Inl TypeError \<and> fib (VFloat (Finite 2)) = Inl TypeError \<and>
   as_c_int (2 ^ 31) = Inl OverflowError \<and> fib_cython (2 ^ 31) = Inl OverflowError"
  using errors_propagate [of VNone TypeError "sconst (Finite 0)" "VFloat (Finite 2)" 0]
    errors_propagate [of VNone OverflowError "sconst (Finite 0)" VNone "2 ^ 31"]
  by (simp add: as_c_int_def)

text \<open>
  C4. For a finite non-negative argument, given as an int or as a float, the estimator
  returns one integer: the number of those among the first \<open>\<lfloor>n\<rfloor>\<close> trials whose point
  lies in the quarter circle (the count starts at 0 and every trial adds 1 or 0), so it
  lies between 0 and \<open>\<lfloor>n\<rfloor>\<close>. Nothing else is returned, but the call is not without
  another effect: it leaves the generator advanced by two draws per trial. A float
  infinity is non-negative too and returns no count: \<^verbatim>\<open>int\<close> raises OverflowError.
\<close>

theorem count_is_sum_of_trials:
  "(0 \<le> n \<longrightarrow>
      (\<exists>c. estimate_number_points_in_quarter_circle (VInt n) g
             = (Inr c, sdrop (2 * nat n) g) \<and>
           c = (\<Sum>i<nat n. if is_in_unit_circle (g !! (2 * i)) (g !! (2 * i + 1)) then 1 else 0) \<and>
           0 \<le> c \<and> c \<le> n)) \<and>
   (0 \<le> x \<longrightarrow>
      (\<exists>c. estimate_number_points_in_quarter_circle (VFloat (Finite x)) g
             = (Inr c, sdrop (2 * nat \<lfloor>x\<rfloor>) g) \<and>
           c = (\<Sum>i<nat \<lfloor>x\<rfloor>.
                  if is_in_unit_circle (g !! (2 * i)) (g !! (2 * i + 1)) then 1 else 0) \<and>
           0 \<le> c \<and> c \<le> \<lfloor>x\<rfloor>)) \<and>
   estimate_number_points_in_quarter_circle (VFloat PosInf) g = (Inl OverflowError, g)"
proof (intro conjI impI)
  let ?hits = "\<lambda>k. \<Sum>i<k. if is_in_unit_circle (g !! (2 * i)) (g !! (2 * i + 1)) then 1 else (0::int)"
  have count: "0 \<le> m \<Longrightarrow>
      \<exists>c. estimate_number_points_in_quarter_circle (VInt m) g = (Inr c, sdrop (2 * nat m) g) \<and>
        c = ?hits (nat m) \<and> 0 \<le> c \<and> c \<le> m" for m
    using hits_bounds [where k = "nat m"
        and P = "\<lambda>i. is_in_unit_circle (g !! (2 * i)) (g !! (2 * i + 1))"]
    by (simp add: estimate_int_count)
  show "\<exists>c. estimate_number_points_in_quarter_circle (VInt n) g = (Inr c, sdrop (2 * nat n) g) \<and>
      c = ?hits (nat n) \<and> 0 \<le> c \<and> c \<le> n" if "0 \<le> n"
    using count [OF that] .
  show "\<exists>c. estimate_number_points_in_quarter_circle (VFloat (Finite x)) g
        = (Inr c, sdrop (2 * nat \<lfloor>x\<rfloor>) g) \<and>
      c = ?hits (nat \<lfloor>x\<rfloor>) \<and> 0 \<le> c \<and> c \<le> \<lfloor>x\<rfloor>" if "0 \<le> x"
  proof -
    from that have "0 \<le> \<lfloor>x\<rfloor>"
      by simp
    from count [OF this] show ?thesis
      by (simp only: estimate_float_as_int [OF that])
  qed
  show "estimate_number_points_in_quarter_circle (VFloat PosInf) g = (Inl OverflowError, g)"
    by (simp add: estimate_number_points_in_quarter_circle_def)
qed

theorem count_is_sum_of_trials_witness:
  "(0::int) \<le> 2 \<and> (0::real) \<le> 5 / 2 \<and>
   estimate_number_points_in_quarter_circle (VInt 2) (sconst (Finite 0))
     = (Inr 2, sconst (Finite 0)) \<and>
   estimate_number_points_in_quarter_circle (VFloat (Finite (5 / 2))) (sconst (Finite 0))
     = (Inr 2, sconst (Finite 0))"
proof -
  have n: "(0::int) \<le> 2" and x: "(0::real) \<le> 5 / 2"
    by simp_all
  have fl: "\<lfloor>5 / 2 :: real\<rfloor> = 2"
    by simp
  have hits: "(\<Sum>i<nat 2. if is_in_unit_circle (sconst (Finite 0) !! (2 * i))
      (sconst (Finite 0) !! (2 * i + 1)) then 1 else 0) = (2::int)"
    by (simp add: origin_is_in_unit_circle)
  from count_is_sum_of_trials [of 2 "sconst (Finite 0)" "5 / 2"] n x
  have "estimate_number_points_in_quarter_circle (VInt 2) (sconst (Finite 0))
      = (Inr 2, sdrop (2 * nat 2) (sconst (Finite 0)))"
    and "estimate_number_points_in_quarter_circle (VFloat (Finite (5 / 2))) (sconst (Finite 0))
      = (Inr 2, sdrop (2 * nat 2) (sconst (Finite 0)))"
    unfolding fl hits by auto
  then show ?thesis
    using n x by simp
qed

text \<open>
  A call with argument 1 leaves the generator in another state than it found it, and a
  call with the float infinity returns no count.
\<close>

theorem count_not_the_only_effect_counterexample:
  "snd (estimate_number_points_in_quarter_circle (VInt 1)
          (Finite 0 ## Finite 0 ## sconst (Finite (3 / 4))))
     \<noteq> Finite 0 ## Finite 0 ## sconst (Finite (3 / 4)) \<and>
   fst (estimate_number_points_in_quarter_circle (VFloat PosInf) (sconst (Finite 0)))
     = Inl OverflowError"
proof
  have "snd (estimate_number_points_in_quarter_circle (VInt 1)
          (Finite 0 ## Finite 0 ## sconst (Finite (3 / 4)))) = sconst (Finite (3 / 4))"
    by (simp add: estimate_int_count numeral_2_eq_2)
  moreover have "sconst (Finite (3 / 4)) \<noteq> Finite 0 ## Finite 0 ## sconst (Finite (3 / 4))"
  proof
    assume "sconst (Finite (3 / 4)) = Finite 0 ## Finite 0 ## sconst (Finite (3 / 4))"
    then have "shd (sconst (Finite (3 / 4))) = shd (Finite 0 ## Finite 0 ## sconst (Finite (3 / 4)))"
      by (rule arg_cong)
    then show False
      by simp
  qed
  ultimately show "snd (estimate_number_points_in_quarter_circle (VInt 1)
          (Finite 0 ## Finite 0 ## sconst (Finite (3 / 4))))
     \<noteq> Finite 0 ## Finite 0 ## sconst (Finite (3 / 4))"
    by simp
  show "fst (estimate_number_points_in_quarter_circle (VFloat PosInf) (sconst (Finite 0)))
     = Inl OverflowError"
    by (simp add: estimate_number_points_in_quarter_circle_def)
qed

text \<open>
  C6. The estimate is \<^verbatim>\<open>sum(number_in_unit_circles) * 4 / number_samples_in_total\<close>
  with Python's true division: the double nearest to the exact quotient \<open>4 * S / 10000\<close>,
  equal to it exactly when that quotient is a double. For 16 counts between 0 and 625 it
  lies between 0 and 4.
\<close>

theorem pi_estimate_rounded:
  assumes "length number_in_unit_circles = 16"
    and "\<forall>c \<in> set number_in_unit_circles. 0 \<le> c \<and> c \<le> 625"
  shows "\<exists>v. pi_estimate number_in_unit_circles = Inr (Finite v) \<and>
    round_double (real_of_int (sum_list number_in_unit_circles * 4) / 10000) = Finite v \<and>
    (v = real_of_int (sum_list number_in_unit_circles * 4) / 10000
       \<longleftrightarrow> representable (real_of_int (sum_list number_in_unit_circles * 4) / 10000)) \<and>
    0 \<le> v \<and> v \<le> 4"
proof -
  let ?q = "real_of_int (sum_list number_in_unit_circles * 4) / real_of_int number_samples_in_total"
  from sum_list_bounds [OF assms(2)] assms(1)
  have s: "0 \<le> sum_list number_in_unit_circles" "sum_list number_in_unit_circles \<le> 10000"
    by simp_all
  then have q: "0 \<le> ?q" "?q \<le> 4"
    by (simp_all add: number_samples_in_total_def)
  have four: "representable 4"
    using representable_nat [of 4] by simp
  from true_div_between [OF _ representable_0 four q] obtain v
    where v: "true_div (sum_list number_in_unit_circles * 4) number_samples_in_total = Inr (Finite v)"
      "round_double ?q = Finite v" "representable v" "0 \<le> v" "v \<le> 4"
    by (auto simp: number_samples_in_total_def)
  have "v = ?q \<longleftrightarrow> representable ?q"
    using v(2,3) round_double_exact [of ?q] by auto
  then show ?thesis
    using v by (auto simp: pi_estimate_def number_samples_in_total_def)
qed

theorem pi_estimate_rounded_witness:
  "length (replicate 16 (625::int)) = 16 \<and> pi_estimate (replicate 16 625) = Inr (Finite 4)"
proof -
  have len: "length (replicate 16 (625::int)) = 16"
    by simp
  have all: "\<forall>c \<in> set (replicate 16 (625::int)). 0 \<le> c \<and> c \<le> 625"
    by simp
  have sum: "sum_list (replicate 16 (625::int)) = 10000"
    by (simp add: sum_list_replicate)
  have "representable (real_of_int (10000 * 4) / 10000)"
    using representable_nat [of 4] by simp
  with pi_estimate_rounded [OF len all] show ?thesis
    unfolding sum by auto
qed

text \<open>
  One count of 1 and fifteen of 0: the exact quotient is \<open>4 / 10000\<close>, which is not a
  double, so the estimate differs from it.
\<close>

theorem pi_estimate_inexact_counterexample:
  "\<exists>v. pi_estimate (1 # replicate 15 0) = Inr (Finite v) \<and> v \<noteq> 4 * 1 / 10000"
proof -
  have sum: "sum_list (1 # replicate 15 (0::int)) * 4 = 4"
    by (simp add: sum_list_replicate)
  have q: "(0::real) \<le> real_of_int 4 / real_of_int 10000" "real_of_int 4 / real_of_int 10000 \<le> (1::real)"
    by simp_all
  from true_div_between [OF _ representable_0 representable_1 q] obtain v
    where v: "true_div 4 10000 = Inr (Finite v)" "representable v"
    by auto
  have "v \<noteq> 1 / 2500"
    using v(2) one_2500th_not_representable by blast
  moreover have "(4 * 1 / 10000 :: real) = 1 / 2500"
    by simp
  ultimately have "v \<noteq> 4 * 1 / 10000"
    by metis
  moreover have "pi_estimate (1 # replicate 15 0) = Inr (Finite v)"
    using v(1) by (simp only: pi_estimate_def sum number_samples_in_total_def)
  ultimately show ?thesis
    by blast
qed

text \<open>
  C8. For every integer in the range of a C int, the Cython \<^verbatim>\<open>fib\<close> returns what the
  Python \<^verbatim>\<open>fib\<close> returns: the typed C loop runs the same number of additions as the
  loop over \<^verbatim>\<open>range(n)\<close>, none at all for \<open>n \<le> 0\<close>, on the same doubles.
\<close>

theorem cython_fib_equivalent:
  "- (2 ^ 31) \<le> n \<Longrightarrow> n < 2 ^ 31 \<Longrightarrow> fib_cython n = fib (VInt n)"
  by (simp add: fib_cython_def fib_def as_c_int_def cy_loop_funpow fold_fib_step
      length_py_range sint_as_c_int del: cy_loop.simps)

theorem cython_fib_equivalent_witness:
  "- (2 ^ 31) \<le> (10::int) \<and> (10::int) < 2 ^ 31 \<and>
   fib_cython 10 = fib (VInt 10) \<and> fib (VInt 10) = Inr (Finite 55) \<and>
   - (2 ^ 31) \<le> (- 5 :: int) \<and> (- 5 :: int) < 2 ^ 31 \<and>
   fib_cython (- 5) = fib (VInt (- 5)) \<and> fib (VInt (- 5)) = Inr (Finite 0)"
proof -
  have v: "fib (VInt 10) = Inr (Finite 55)"
    using fib_loop [of 10] by (simp add: fib_def fold_fib_step length_py_range fibonacci_10)
  have z: "fib (VInt (- 5)) = Inr (Finite 0)"
    by (simp add: fib_def py_range_empty)
  show ?thesis
    using cython_fib_equivalent [of 10] cython_fib_equivalent [of "- 5"] v z by simp
qed

text \<open>
  C9. A non-negative float argument \<open>x\<close> is truncated by \<^verbatim>\<open>int\<close>: the call behaves as
  the call on \<open>\<lfloor>x\<rfloor>\<close>, the loop runs \<open>\<lfloor>x\<rfloor>\<close> times and consumes two draws each time.
  The notebook hands every worker the float \<open>625.0\<close> (\<open>10000 / 16\<close>), and a worker runs
  625 trials.
\<close>

theorem float_argument_truncated:
  "(0 \<le> x \<longrightarrow>
      estimate_number_points_in_quarter_circle (VFloat (Finite x)) g
        = estimate_number_points_in_quarter_circle (VInt \<lfloor>x\<rfloor>) g \<and>
      py_int (VFloat (Finite x)) = Inr \<lfloor>x\<rfloor> \<and>
      length (py_range \<lfloor>x\<rfloor>) = nat \<lfloor>x\<rfloor> \<and>
      snd (estimate_number_points_in_quarter_circle (VFloat (Finite x)) g)
        = sdrop (2 * nat \<lfloor>x\<rfloor>) g) \<and>
   number_trials_per_process number_samples_in_total number_parallel_blocks
     = Inr (replicate 16 (Finite 625)) \<and>
   py_int (VFloat (Finite 625)) = Inr 625 \<and>
   length (py_range 625) = 625 \<and>
   snd (estimate_number_points_in_quarter_circle (VFloat (Finite 625)) g) = sdrop 1250 g"
proof (intro conjI impI)
  assume x: "0 \<le> x"
  show "estimate_number_points_in_quarter_circle (VFloat (Finite x)) g
        = estimate_number_points_in_quarter_circle (VInt \<lfloor>x\<rfloor>) g"
    by (rule estimate_float_as_int [OF x])
  show "py_int (VFloat (Finite x)) = Inr \<lfloor>x\<rfloor>"
    using x by simp
  show "length (py_range \<lfloor>x\<rfloor>) = nat \<lfloor>x\<rfloor>"
    by (rule length_py_range)
  show "snd (estimate_number_points_in_quarter_circle (VFloat (Finite x)) g)
        = sdrop (2 * nat \<lfloor>x\<rfloor>) g"
    using estimate_of_int [of "\<lfloor>x\<rfloor>" g] estimate_float_as_int [OF x, of g] by auto
next
  show "number_trials_per_process number_samples_in_total number_parallel_blocks
     = Inr (replicate 16 (Finite 625))"
    by (rule notebook_split)
  show "py_int (VFloat (Finite 625)) = Inr 625"
    by simp
  show "length (py_range 625) = 625"
    by (simp add: length_py_range)
  show "snd (estimate_number_points_in_quarter_circle (VFloat (Finite 625)) g) = sdrop 1250 g"
    using estimate_of_int [of 625 g] estimate_float_as_int [of 625 g] by auto
qed

theorem float_argument_truncated_witness:
  "(0::real) \<le> 5 / 2 \<and>
   estimate_number_points_in_quarter_circle (VFloat (Finite (5 / 2))) (sconst (Finite 0))
     = estimate_number_points_in_quarter_circle (VInt 2) (sconst (Finite 0)) \<and>
   py_int (VFloat (Finite (5 / 2))) = Inr 2 \<and>
   length (py_range 2) = nat 2 \<and>
   snd (estimate_number_points_in_quarter_circle (VFloat (Finite (5 / 2))) (sconst (Finite 0)))
     = sdrop (2 * nat 2) (sconst (Finite 0))"
proof -
  have h: "(0::real) \<le> 5 / 2"
    by simp
  have fl: "\<lfloor>5 / 2 :: real\<rfloor> = 2"
    by simp
  from float_argument_truncated [of "5 / 2" "sconst (Finite 0)"] h
  have "estimate_number_points_in_quarter_circle (VFloat (Finite (5 / 2))) (sconst (Finite 0))
        = estimate_number_points_in_quarter_circle (VInt \<lfloor>5 / 2 :: real\<rfloor>) (sconst (Finite 0)) \<and>
      py_int (VFloat (Finite (5 / 2))) = Inr \<lfloor>5 / 2 :: real\<rfloor> \<and>
      length (py_range \<lfloor>5 / 2 :: real\<rfloor>) = nat \<lfloor>5 / 2 :: real\<rfloor> \<and>
      snd (estimate_number_points_in_quarter_circle (VFloat (Finite (5 / 2))) (sconst (Finite 0)))
        = sdrop (2 * nat \<lfloor>5 / 2 :: real\<rfloor>) (sconst (Finite 0))"
    by blast
  then show ?thesis
    unfolding fl using h by blast
qed

text \<open>
  C10. For a positive number of blocks that the interpreter can allocate a list for,
  \<^verbatim>\<open>[samples / blocks] * blocks\<close> is a list of \<open>blocks\<close> equal floats. When the exact
  quotient is a double (as \<open>10000 / 16 = 625\<close>) every entry is that quotient and the
  entries sum to \<open>samples\<close>. In general every entry is the double nearest to the quotient,
  and the exact sum of the entries is \<open>samples\<close> only if the quotient is a double.
\<close>

theorem work_split:
  assumes "0 < blocks" "blocks \<le> sys_maxsize" "blocks \<le> int room"
  shows "(representable (real_of_int samples / real_of_int blocks) \<longrightarrow>
      (\<exists>xs. number_trials_per_process_in room samples blocks = Inr (map Finite xs) \<and>
         length xs = nat blocks \<and>
         (\<forall>x \<in> set xs. x = real_of_int samples / real_of_int blocks) \<and>
         sum_list xs = real_of_int samples)) \<and>
    (round_double (real_of_int samples / real_of_int blocks) = Finite q \<longrightarrow>
       number_trials_per_process_in room samples blocks
         = Inr (replicate (nat blocks) (Finite q)) \<and>
       (sum_list (replicate (nat blocks) q) = real_of_int samples
          \<longleftrightarrow> representable (real_of_int samples / real_of_int blocks)))"
proof (intro conjI impI)
  let ?q = "real_of_int samples / real_of_int blocks"
  have b: "real (nat blocks) = real_of_int blocks" "real_of_int blocks \<noteq> 0"
    using assms(1) by simp_all
  have total: "sum_list (replicate (nat blocks) ?q) = real_of_int samples"
    using b by (simp add: sum_list_replicate)
  have fits: "list_repeat room x blocks = Inr (replicate (nat blocks) x)" for x :: pyfloat
    using assms by (simp add: list_repeat_def)
  {
    assume "representable ?q"
    then have "number_trials_per_process_in room samples blocks
        = Inr (map Finite (replicate (nat blocks) ?q))"
      using assms(1) true_div_exact [of blocks samples] fits
      by (simp add: number_trials_per_process_in_def number_samples_per_worker_task_def)
    then show "\<exists>xs. number_trials_per_process_in room samples blocks = Inr (map Finite xs) \<and>
         length xs = nat blocks \<and> (\<forall>x \<in> set xs. x = ?q) \<and> sum_list xs = real_of_int samples"
      using total by (intro exI [of _ "replicate (nat blocks) ?q"]) simp
  }
  {
    assume r: "round_double ?q = Finite q"
    then show "number_trials_per_process_in room samples blocks
        = Inr (replicate (nat blocks) (Finite q))"
      using assms(1) fits
      by (simp add: number_trials_per_process_in_def number_samples_per_worker_task_def
          true_div_def)
    have "sum_list (replicate (nat blocks) q) = real_of_int samples \<longleftrightarrow> q = ?q"
      using b by (auto simp: sum_list_replicate field_simps)
    also have "\<dots> \<longleftrightarrow> representable ?q"
      using r round_double_Finite [OF r] round_double_exact [of ?q] by auto
    finally show "sum_list (replicate (nat blocks) q) = real_of_int samples \<longleftrightarrow> representable ?q" .
  }
qed

theorem work_split_witness:
  "(0::int) < 16 \<and> (16::int) \<le> sys_maxsize \<and> (16::int) \<le> int 16 \<and>
   representable (real_of_int 10000 / real_of_int 16) \<and>
   round_double (real_of_int 10000 / real_of_int 16) = Finite 625 \<and>
   (\<exists>xs. number_trials_per_process_in 16 10000 16 = Inr (map Finite xs) \<and> length xs = nat 16 \<and>
      sum_list xs = real_of_int 10000) \<and>
   number_trials_per_process_in 16 10000 16 = Inr (replicate (nat 16) (Finite 625))"
proof -
  have pos: "(0::int) < 16"
    by simp
  have small: "(16::int) \<le> sys_maxsize"
    by (simp add: sys_maxsize_def)
  have room: "(16::int) \<le> int 16"
    by simp
  have rep: "representable (real_of_int 10000 / real_of_int 16)"
    using representable_nat [of 625] by simp
  have rd: "round_double (real_of_int 10000 / real_of_int 16) = Finite 625"
    using round_double_exact [OF rep] by simp
  show ?thesis
    using work_split [OF pos small room, of 10000 625] pos small room rep rd by blast
qed

text \<open>
  One sample over three blocks: the three entries are the double nearest to \<open>1 / 3\<close>,
  and three times that double is not 1.
\<close>

theorem work_split_inexact_counterexample:
  "\<exists>q. number_trials_per_process 1 3 = Inr (replicate 3 (Finite q)) \<and>
       sum_list (replicate 3 q) \<noteq> 1"
proof -
  have q: "(0::real) \<le> real_of_int 1 / real_of_int 3" "real_of_int 1 / real_of_int 3 \<le> (1::real)"
    by simp_all
  from true_div_between [OF _ representable_0 representable_1 q] obtain v
    where v: "true_div 1 3 = Inr (Finite v)" "representable v"
    by auto
  have "v \<noteq> 1 / 3"
    using v(2) third_not_representable by blast
  then have "sum_list (replicate 3 v) \<noteq> 1"
    by (simp add: sum_list_replicate)
  moreover have "number_trials_per_process 1 3 = Inr (replicate 3 (Finite v))"
    using v(1)
    by (simp add: number_trials_per_process_def number_trials_per_process_in_def
        number_samples_per_worker_task_def list_repeat_def sys_maxsize_def max_list_length_def)
  ultimately show ?thesis
    by blast
qed

end
